theory Spec2Isabelle
  imports Main "HOL-Library.Word"
begin

section \<open>bucketmap: a map split into independently locked buckets\<close>

text \<open>
  The development embeds \<^verbatim>\<open>bucketmap.go\<close>. Its executions are modelled one call at a
  time: a call runs from its \<^verbatim>\<open>Lock\<close>/\<^verbatim>\<open>RLock\<close> to the matching unlock without
  another goroutine in between, so the mutex of a bucket does not change what the call
  reads or writes and is not part of the modelled state. What is kept of a bucket is its
  table \<^verbatim>\<open>m\<close>, which is \<^verbatim>\<open>nil\<close> until the first write.

  Go runtime panics are values of type \<open>panic\<close>; a call that can panic returns
  \<open>panic + result\<close>, with \<open>Inl\<close> for the panic. Allocation (\<^verbatim>\<open>make\<close>) is taken to
  succeed.

  Keys are compared by equality, as Go's \<^verbatim>\<open>==\<close> does on every key but a floating-point
  NaN (which is not equal to itself, so that no lookup finds it) and an interface holding
  a value that cannot be compared (where \<^verbatim>\<open>==\<close> panics); such keys are outside the model.
  The hash of a Map is a function, so equal keys have equal hashes.
\<close>

subsection \<open>Data\<close>

datatype panic = DivideByZero | IndexOutOfRange | NilMapAssign

text \<open>
  \<^verbatim>\<open>type bucket[K comparable, V any] struct { sync.RWMutex; m map[K]V }\<close>.
  \<open>None\<close> is the \<^verbatim>\<open>nil\<close> map, \<open>Some t\<close> an allocated map with entries \<open>t\<close>.
\<close>

record ('k, 'v) bucket =
  m :: "('k \<rightharpoonup> 'v) option"

text \<open>
  \<^verbatim>\<open>type Map[K comparable, V any] struct { buckets []bucket[K, V]; hash unsafehash.HashFunc[K] }\<close>.
  A hash is a \<^verbatim>\<open>uint64\<close>.
\<close>

record ('k, 'v) Map =
  buckets :: "('k, 'v) bucket list"
  hash :: "'k \<Rightarrow> 64 word"

subsection \<open>Go's built-in operations on a map value\<close>

text \<open>
  \<^verbatim>\<open>value, ok = bkt.m[key]\<close>: the zero value of \<^verbatim>\<open>V\<close> and \<^verbatim>\<open>false\<close> when the key is
  missing, also on a \<^verbatim>\<open>nil\<close> map. The zero value of \<^verbatim>\<open>V\<close> is \<open>0\<close> of class \<open>zero\<close>.
\<close>

definition mapaccess :: "('k, 'v::zero) bucket \<Rightarrow> 'k \<Rightarrow> 'v \<times> bool" where
  "mapaccess bkt key =
     (case m bkt of
        None \<Rightarrow> (0, False)
      | Some t \<Rightarrow> (case t key of None \<Rightarrow> (0, False) | Some v \<Rightarrow> (v, True)))"

text \<open>\<^verbatim>\<open>bkt.m[key] = value\<close>: panics on a \<^verbatim>\<open>nil\<close> map.\<close>

definition mapassign :: "('k, 'v) bucket \<Rightarrow> 'k \<Rightarrow> 'v \<Rightarrow> panic + ('k, 'v) bucket" where
  "mapassign bkt key val =
     (case m bkt of
        None \<Rightarrow> Inl NilMapAssign
      | Some t \<Rightarrow> Inr (bkt\<lparr>m := Some (t(key \<mapsto> val))\<rparr>))"

text \<open>\<^verbatim>\<open>delete(bkt.m, key)\<close>: no effect on a \<^verbatim>\<open>nil\<close> map or a missing key.\<close>

definition mapdelete :: "('k, 'v) bucket \<Rightarrow> 'k \<Rightarrow> ('k, 'v) bucket" where
  "mapdelete bkt key =
     (case m bkt of
        None \<Rightarrow> bkt
      | Some t \<Rightarrow> bkt\<lparr>m := Some (t(key := None))\<rparr>)"

text \<open>\<^verbatim>\<open>clear(b.m)\<close>: no effect on a \<^verbatim>\<open>nil\<close> map; an allocated map stays allocated.\<close>

definition mapclear :: "('k, 'v) bucket \<Rightarrow> ('k, 'v) bucket" where
  "mapclear b =
     (case m b of
        None \<Rightarrow> b
      | Some t \<Rightarrow> b\<lparr>m := Some Map.empty\<rparr>)"

text \<open>\<^verbatim>\<open>if bkt.m == nil { bkt.m = make(map[K]V) }\<close>\<close>

definition mapinit :: "('k, 'v) bucket \<Rightarrow> ('k, 'v) bucket" where
  "mapinit bkt = (if m bkt = None then bkt\<lparr>m := Some Map.empty\<rparr> else bkt)"

subsection \<open>Construction and routing\<close>

text \<open>
  \<^verbatim>\<open>func Make[K comparable, V any](buckets ...int) *Map[K, V]\<close>. The variadic argument is
  a list of Go \<^verbatim>\<open>int\<close>s, 64-bit words read as signed (a 64-bit platform). \<^verbatim>\<open>unsafehash.Map[K]()\<close> belongs to
  another module; the hash function it returns is the parameter \<open>unsafehash_Map\<close>.
  \<^verbatim>\<open>make([]bucket[K, V], n)\<close> gives \<open>n\<close> buckets with a \<^verbatim>\<open>nil\<close> table each.
\<close>

definition Make :: "('k \<Rightarrow> 64 word) \<Rightarrow> 64 word list \<Rightarrow> ('k, 'v) Map" where
  "Make unsafehash_Map bucketsArg =
     (let n = (if length bucketsArg > 0 \<and> sint (bucketsArg ! 0) > 0
               then bucketsArg ! 0 else 31);
          hashfn = (if n = 1 then (\<lambda>k. 0) else unsafehash_Map)
      in \<lparr>buckets = replicate (nat (sint n)) \<lparr>m = None\<rparr>, hash = hashfn\<rparr>)"

text \<open>
  \<^verbatim>\<open>return &m.buckets[m.hash(key)%uint64(len(m.buckets))]\<close>. The pointer to the bucket is
  its index. The remainder panics when the divisor is zero, the indexing when out of range.
\<close>

definition get :: "('k, 'v) Map \<Rightarrow> 'k \<Rightarrow> panic + nat" where
  "get mp key =
     (let n = (of_nat (length (buckets mp)) :: 64 word) in
      if n = 0 then Inl DivideByZero
      else let i = unat (hash mp key mod n) in
        if i < length (buckets mp) then Inr i else Inl IndexOutOfRange)"

text \<open>Writing through the pointer \<^verbatim>\<open>bkt\<close>.\<close>

definition setbkt :: "('k, 'v) Map \<Rightarrow> nat \<Rightarrow> ('k, 'v) bucket \<Rightarrow> ('k, 'v) Map" where
  "setbkt mp i bkt = mp\<lparr>buckets := (buckets mp)[i := bkt]\<rparr>"

subsection \<open>Single-key operations\<close>

definition Load :: "('k, 'v::zero) Map \<Rightarrow> 'k \<Rightarrow> panic + ('v \<times> bool)" where
  "Load mp key =
     (case get mp key of
        Inl e \<Rightarrow> Inl e
      | Inr i \<Rightarrow> Inr (mapaccess (buckets mp ! i) key))"

definition Store :: "('k, 'v) Map \<Rightarrow> 'k \<Rightarrow> 'v \<Rightarrow> panic + ('k, 'v) Map" where
  "Store mp key val =
     (case get mp key of
        Inl e \<Rightarrow> Inl e
      | Inr i \<Rightarrow>
          (case mapassign (mapinit (buckets mp ! i)) key val of
             Inl e \<Rightarrow> Inl e
           | Inr bkt \<Rightarrow> Inr (setbkt mp i bkt)))"

definition Delete :: "('k, 'v) Map \<Rightarrow> 'k \<Rightarrow> panic + ('k, 'v) Map" where
  "Delete mp key =
     (case get mp key of
        Inl e \<Rightarrow> Inl e
      | Inr i \<Rightarrow> Inr (setbkt mp i (mapdelete (buckets mp ! i) key)))"

definition LoadAndDelete ::
  "('k, 'v::zero) Map \<Rightarrow> 'k \<Rightarrow> panic + (('v \<times> bool) \<times> ('k, 'v) Map)" where
  "LoadAndDelete mp key =
     (case get mp key of
        Inl e \<Rightarrow> Inl e
      | Inr i \<Rightarrow>
          (let bkt = buckets mp ! i;
               (val, loaded) = mapaccess bkt key
           in if loaded then Inr ((val, loaded), setbkt mp i (mapdelete bkt key))
              else Inr ((val, loaded), mp)))"

definition LoadOrStore ::
  "('k, 'v::zero) Map \<Rightarrow> 'k \<Rightarrow> 'v \<Rightarrow> panic + (('v \<times> bool) \<times> ('k, 'v) Map)" where
  "LoadOrStore mp key val =
     (case get mp key of
        Inl e \<Rightarrow> Inl e
      | Inr i \<Rightarrow>
          (let bkt = buckets mp ! i;
               (actual, loaded) = mapaccess bkt key
           in if \<not> loaded then
                (case mapassign (mapinit bkt) key val of
                   Inl e \<Rightarrow> Inl e
                 | Inr bkt' \<Rightarrow> Inr ((val, loaded), setbkt mp i bkt'))
              else Inr ((actual, loaded), mp)))"

text \<open>
  \<^verbatim>\<open>newValue func() V\<close> is a closure: it may read and change state of its caller. That
  state is \<open>'s\<close>, and a call of \<^verbatim>\<open>newValue()\<close> is one application of \<open>newValue\<close> to it.
  The closure runs with the bucket locked and is taken not to touch the Map.
\<close>

definition LoadOrStoreFunc ::
  "('k, 'v::zero) Map \<Rightarrow> 'k \<Rightarrow> ('s \<Rightarrow> 'v \<times> 's) \<Rightarrow> 's
     \<Rightarrow> panic + (('v \<times> bool) \<times> ('k, 'v) Map \<times> 's)" where
  "LoadOrStoreFunc mp key newValue s =
     (case get mp key of
        Inl e \<Rightarrow> Inl e
      | Inr i \<Rightarrow>
          (let bkt = buckets mp ! i;
               (actual, loaded) = mapaccess bkt key
           in if \<not> loaded then
                (let bkt1 = mapinit bkt;
                     (val, s') = newValue s
                 in case mapassign bkt1 key val of
                      Inl e \<Rightarrow> Inl e
                    | Inr bkt' \<Rightarrow> Inr ((val, loaded), setbkt mp i bkt', s'))
              else Inr ((actual, loaded), mp, s)))"

definition Swap ::
  "('k, 'v::zero) Map \<Rightarrow> 'k \<Rightarrow> 'v \<Rightarrow> panic + (('v \<times> bool) \<times> ('k, 'v) Map)" where
  "Swap mp key val =
     (case get mp key of
        Inl e \<Rightarrow> Inl e
      | Inr i \<Rightarrow>
          (let bkt = buckets mp ! i;
               (previous, loaded) = mapaccess bkt key
           in case mapassign (mapinit bkt) key val of
                Inl e \<Rightarrow> Inl e
              | Inr bkt' \<Rightarrow> Inr ((previous, loaded), setbkt mp i bkt')))"

subsection \<open>Clear\<close>

text \<open>\<^verbatim>\<open>for i := 0; i < len(m.buckets); i++ { b := &m.buckets[i]; clear(b.m) }\<close>\<close>

function Clear_loop :: "nat \<Rightarrow> ('k, 'v) Map \<Rightarrow> ('k, 'v) Map" where
  "Clear_loop i mp =
     (if i < length (buckets mp)
      then Clear_loop (i + 1) (setbkt mp i (mapclear (buckets mp ! i)))
      else mp)"
  by pat_completeness auto
termination
  by (relation "measure (\<lambda>(i, mp). length (buckets mp) - i)") (auto simp: setbkt_def)

declare Clear_loop.simps [simp del]

definition Clear :: "('k, 'v) Map \<Rightarrow> ('k, 'v) Map" where
  "Clear mp = Clear_loop 0 mp"

subsection \<open>Iter\<close>

text \<open>
  \<^verbatim>\<open>Iter\<close> first builds \<^verbatim>\<open>order\<close>, the bucket indices permuted by \<^verbatim>\<open>rand.Shuffle\<close>; the
  permutation drawn is the parameter \<open>shuffle\<close>. The function it returns walks the buckets
  in that order and ranges over each table. Go fixes no order for \<^verbatim>\<open>range\<close> over a map:
  the order taken for a table is given by the parameter \<open>enum\<close>.

  The bucket is unlocked while \<^verbatim>\<open>yield\<close> runs, so \<^verbatim>\<open>yield\<close> may call back into the Map.
  It is a function on the Map and the state \<open>'s\<close> of its caller, returning whether to go
  on. An entry removed before the range reaches it is not produced, as Go specifies; an
  entry added during the range may or may not be produced in Go and is not produced here.
  A key is therefore read from the table as it is when its turn comes.

  Next to the final state, the model returns every call of \<^verbatim>\<open>yield\<close> in order: key, value
  and the answer of \<^verbatim>\<open>yield\<close>.

  No Go callback can change the number of buckets, the slice being assigned once in
  \<^verbatim>\<open>Make\<close>; a \<open>yield\<close> of the model that returns a Map with fewer buckets makes the
  next access through \<^verbatim>\<open>bkt\<close> an \<open>IndexOutOfRange\<close>.
\<close>

type_synonym ('k, 'v, 's) yield =
  "'k \<Rightarrow> 'v \<Rightarrow> ('k, 'v) Map \<times> 's \<Rightarrow> bool \<times> ('k, 'v) Map \<times> 's"

type_synonym ('k, 'v) calls = "('k \<times> 'v \<times> bool) list"

text \<open>
  \<^verbatim>\<open>for k, v := range bkt.m { if !f(k, v) { broken = true; return } }\<close> for the bucket at
  index \<open>i\<close>, over the keys still to come. The boolean returned is \<^verbatim>\<open>broken\<close>.
\<close>

fun range_m ::
  "nat \<Rightarrow> ('k, 'v, 's) yield \<Rightarrow> 'k list \<Rightarrow> ('k, 'v) Map \<times> 's
     \<Rightarrow> ('k, 'v) calls \<times> (panic + bool \<times> ('k, 'v) Map \<times> 's)" where
  "range_m i yield [] w = ([], Inr (False, w))"
| "range_m i yield (k # ks) (mp, s) =
     (if i < length (buckets mp) then
        (case (case m (buckets mp ! i) of None \<Rightarrow> None | Some t \<Rightarrow> t k) of
           None \<Rightarrow> range_m i yield ks (mp, s)
         | Some v \<Rightarrow>
             (case yield k v (mp, s) of
                (False, w') \<Rightarrow> ([(k, v, False)], Inr (True, w'))
              | (True, w') \<Rightarrow>
                  (case range_m i yield ks w' of (cs, r) \<Rightarrow> ((k, v, True) # cs, r))))
      else ([], Inl IndexOutOfRange))"

text \<open>
  \<^verbatim>\<open>for _, i := range order { ...; if broken { break } }\<close>. \<^verbatim>\<open>bkt := &m.buckets[i]\<close>
  panics when \<open>i\<close> is out of range.
\<close>

fun Iter_order ::
  "(('k \<rightharpoonup> 'v) \<Rightarrow> 'k list) \<Rightarrow> ('k, 'v, 's) yield \<Rightarrow> nat list \<Rightarrow> ('k, 'v) Map \<times> 's
     \<Rightarrow> ('k, 'v) calls \<times> (panic + ('k, 'v) Map \<times> 's)" where
  "Iter_order enum yield [] w = ([], Inr w)"
| "Iter_order enum yield (i # order) (mp, s) =
     (if i < length (buckets mp) then
        (case range_m i yield
                (case m (buckets mp ! i) of None \<Rightarrow> [] | Some t \<Rightarrow> enum t) (mp, s) of
           (cs, Inl e) \<Rightarrow> (cs, Inl e)
         | (cs, Inr (True, w')) \<Rightarrow> (cs, Inr w')
         | (cs, Inr (False, w')) \<Rightarrow>
             (case Iter_order enum yield order w' of (cs', r) \<Rightarrow> (cs @ cs', r)))
      else ([], Inl IndexOutOfRange))"

definition Iter ::
  "('k, 'v) Map \<Rightarrow> (nat list \<Rightarrow> nat list) \<Rightarrow> (('k \<rightharpoonup> 'v) \<Rightarrow> 'k list) \<Rightarrow> ('k, 'v, 's) yield
     \<Rightarrow> ('k, 'v) Map \<times> 's \<Rightarrow> ('k, 'v) calls \<times> (panic + ('k, 'v) Map \<times> 's)" where
  "Iter mp shuffle =
     (let order = shuffle [0..<length (buckets mp)]
      in (\<lambda>enum yield w. Iter_order enum yield order w))"

subsection \<open>Well-formed Maps\<close>

text \<open>
  The length of a Go slice is an \<^verbatim>\<open>int\<close>, so below \<open>2 ^ 63\<close>, and \<^verbatim>\<open>Make\<close> allocates at
  least one bucket.
\<close>

definition Map_inv :: "('k, 'v) Map \<Rightarrow> bool" where
  "Map_inv mp \<longleftrightarrow> 0 < length (buckets mp) \<and> length (buckets mp) < 2 ^ 63"

text \<open>The bucket index of a key, and the entry the Map holds for it.\<close>

definition route :: "('k, 'v) Map \<Rightarrow> 'k \<Rightarrow> nat" where
  "route mp key = unat (hash mp key mod of_nat (length (buckets mp)))"

definition entry :: "('k, 'v) Map \<Rightarrow> 'k \<rightharpoonup> 'v" where
  "entry mp key = (case m (buckets mp ! route mp key) of None \<Rightarrow> None | Some t \<Rightarrow> t key)"

text \<open>The entry that the bucket at index \<open>i\<close> holds for a key.\<close>

definition slot :: "('k, 'v) Map \<Rightarrow> nat \<Rightarrow> 'k \<rightharpoonup> 'v" where
  "slot mp i k = (case m (buckets mp ! i) of None \<Rightarrow> None | Some t \<Rightarrow> t k)"

text \<open>What a read returns for an entry: the value and \<^verbatim>\<open>true\<close>, or the zero value and \<^verbatim>\<open>false\<close>.\<close>

definition found :: "'v::zero option \<Rightarrow> 'v \<times> bool" where
  "found x = (case x of None \<Rightarrow> (0, False) | Some v \<Rightarrow> (v, True))"

text \<open>A table of a Go map is finite, and the operations put a key into its own bucket only.\<close>

definition routed :: "('k, 'v) Map \<Rightarrow> bool" where
  "routed mp \<longleftrightarrow>
     (\<forall>i < length (buckets mp). \<forall>t. m (buckets mp ! i) = Some t \<longrightarrow>
        finite (dom t) \<and> (\<forall>k \<in> dom t. route mp k = i))"

text \<open>A constructor that counts its calls, for \<^verbatim>\<open>LoadOrStoreFunc\<close>.\<close>

definition counted :: "('s \<Rightarrow> 'v \<times> 's) \<Rightarrow> 's \<times> nat \<Rightarrow> 'v \<times> 's \<times> nat" where
  "counted newValue = (\<lambda>(s, n). case newValue s of (v, s') \<Rightarrow> (v, s', Suc n))"

subsection \<open>Sequences of calls\<close>

text \<open>
  A caller's sequence of calls on one Map. \<^verbatim>\<open>CallIter\<close> is a complete pass of \<^verbatim>\<open>Iter\<close>
  by a callback that looks at each pair and always answers \<^verbatim>\<open>true\<close>; it carries the
  shuffle and the range order drawn for that pass. What a call gives back is the value and
  flag it returns, nothing, or for a pass the set of pairs it has shown (their order is
  drawn at random in each pass, whatever the number of buckets).
\<close>

datatype ('k, 'v, 's) call =
    CallLoad 'k
  | CallStore 'k 'v
  | CallDelete 'k
  | CallClear
  | CallLoadAndDelete 'k
  | CallLoadOrStore 'k 'v
  | CallLoadOrStoreFunc 'k "'s \<Rightarrow> 'v \<times> 's"
  | CallSwap 'k 'v
  | CallIter "nat list \<Rightarrow> nat list" "('k \<rightharpoonup> 'v) \<Rightarrow> 'k list"

datatype ('k, 'v) outcome = Returned 'v bool | Nothing | Yielded "('k \<times> 'v) set"

fun exec ::
  "('k, 'v, 's) call \<Rightarrow> ('k, 'v::zero) Map \<times> 's
     \<Rightarrow> panic + (('k, 'v) outcome \<times> ('k, 'v) Map \<times> 's)" where
  "exec (CallLoad k) (mp, s) =
     (case Load mp k of Inl e \<Rightarrow> Inl e | Inr (v, ok) \<Rightarrow> Inr (Returned v ok, mp, s))"
| "exec (CallStore k v) (mp, s) =
     (case Store mp k v of Inl e \<Rightarrow> Inl e | Inr mp' \<Rightarrow> Inr (Nothing, mp', s))"
| "exec (CallDelete k) (mp, s) =
     (case Delete mp k of Inl e \<Rightarrow> Inl e | Inr mp' \<Rightarrow> Inr (Nothing, mp', s))"
| "exec CallClear (mp, s) = Inr (Nothing, Clear mp, s)"
| "exec (CallLoadAndDelete k) (mp, s) =
     (case LoadAndDelete mp k of
        Inl e \<Rightarrow> Inl e
      | Inr ((v, loaded), mp') \<Rightarrow> Inr (Returned v loaded, mp', s))"
| "exec (CallLoadOrStore k v) (mp, s) =
     (case LoadOrStore mp k v of
        Inl e \<Rightarrow> Inl e
      | Inr ((actual, loaded), mp') \<Rightarrow> Inr (Returned actual loaded, mp', s))"
| "exec (CallLoadOrStoreFunc k newValue) (mp, s) =
     (case LoadOrStoreFunc mp k newValue s of
        Inl e \<Rightarrow> Inl e
      | Inr ((actual, loaded), mp', s') \<Rightarrow> Inr (Returned actual loaded, mp', s'))"
| "exec (CallSwap k v) (mp, s) =
     (case Swap mp k v of
        Inl e \<Rightarrow> Inl e
      | Inr ((previous, loaded), mp') \<Rightarrow> Inr (Returned previous loaded, mp', s))"
| "exec (CallIter shuffle enum) (mp, s) =
     (case Iter mp shuffle enum (\<lambda>k v w. (True, w)) (mp, s) of
        (cs, Inl e) \<Rightarrow> Inl e
      | (cs, Inr (mp', s')) \<Rightarrow> Inr (Yielded ((\<lambda>(k, v, a). (k, v)) ` set cs), mp', s'))"

fun run ::
  "('k, 'v, 's) call list \<Rightarrow> ('k, 'v::zero) Map \<times> 's
     \<Rightarrow> panic + (('k, 'v) outcome list \<times> ('k, 'v) Map \<times> 's)" where
  "run [] (mp, s) = Inr ([], mp, s)"
| "run (c # cs) (mp, s) =
     (case exec c (mp, s) of
        Inl e \<Rightarrow> Inl e
      | Inr (out, w') \<Rightarrow>
          (case run cs w' of
             Inl e \<Rightarrow> Inl e
           | Inr (outs, w'') \<Rightarrow> Inr (out # outs, w'')))"

text \<open>
  What a pass may draw: a shuffle returns the indices it is given, in some order, and the
  range over a (finite) table goes through its keys.
\<close>

fun draws_ok :: "('k, 'v, 's) call \<Rightarrow> bool" where
  "draws_ok (CallIter shuffle enum) \<longleftrightarrow>
     (\<forall>xs. set (shuffle xs) = set xs) \<and> (\<forall>t. finite (dom t) \<longrightarrow> set (enum t) = dom t)"
| "draws_ok _ \<longleftrightarrow> True"

subsection \<open>The operations as the specification words them\<close>

text \<open>
  The specification describes the operations on one key-value mapping, with no buckets:
  \<^verbatim>\<open>Load\<close> returns the value and a found flag, the zero value and false if absent;
  \<^verbatim>\<open>Store\<close> is an unconditional upsert; \<^verbatim>\<open>Delete\<close> removes if present, else no-op;
  \<^verbatim>\<open>LoadAndDelete\<close> returns the prior value and whether it existed, then removes it;
  \<^verbatim>\<open>LoadOrStore\<close> returns the existing value and loaded = true without mutation if
  present, else stores the value and returns it with loaded = false;
  \<^verbatim>\<open>LoadOrStoreFunc\<close> is the same with the value produced by the constructor, invoked
  only when the key is absent; \<^verbatim>\<open>Swap\<close> stores unconditionally and returns the prior
  value and whether one existed; \<^verbatim>\<open>Clear\<close> empties the mapping; a complete pass of
  \<^verbatim>\<open>Iter\<close> visits every pair present.
\<close>

fun spec_exec ::
  "('k, 'v, 's) call \<Rightarrow> ('k \<rightharpoonup> 'v::zero) \<times> 's
     \<Rightarrow> ('k, 'v) outcome \<times> ('k \<rightharpoonup> 'v) \<times> 's" where
  "spec_exec (CallLoad k) (a, s) =
     (case a k of None \<Rightarrow> (Returned 0 False, a, s) | Some v \<Rightarrow> (Returned v True, a, s))"
| "spec_exec (CallStore k v) (a, s) = (Nothing, a(k \<mapsto> v), s)"
| "spec_exec (CallDelete k) (a, s) = (Nothing, a(k := None), s)"
| "spec_exec CallClear (a, s) = (Nothing, Map.empty, s)"
| "spec_exec (CallLoadAndDelete k) (a, s) =
     (case a k of
        None \<Rightarrow> (Returned 0 False, a, s)
      | Some v \<Rightarrow> (Returned v True, a(k := None), s))"
| "spec_exec (CallLoadOrStore k v) (a, s) =
     (case a k of
        None \<Rightarrow> (Returned v False, a(k \<mapsto> v), s)
      | Some old \<Rightarrow> (Returned old True, a, s))"
| "spec_exec (CallLoadOrStoreFunc k newValue) (a, s) =
     (case a k of
        None \<Rightarrow> (case newValue s of (v, s') \<Rightarrow> (Returned v False, a(k \<mapsto> v), s'))
      | Some old \<Rightarrow> (Returned old True, a, s))"
| "spec_exec (CallSwap k v) (a, s) =
     (case a k of
        None \<Rightarrow> (Returned 0 False, a(k \<mapsto> v), s)
      | Some old \<Rightarrow> (Returned old True, a(k \<mapsto> v), s))"
| "spec_exec (CallIter shuffle enum) (a, s) = (Yielded {(k, v). a k = Some v}, a, s)"

fun spec_run ::
  "('k, 'v, 's) call list \<Rightarrow> ('k \<rightharpoonup> 'v::zero) \<times> 's
     \<Rightarrow> ('k, 'v) outcome list \<times> ('k \<rightharpoonup> 'v) \<times> 's" where
  "spec_run [] w = ([], w)"
| "spec_run (c # cs) w =
     (case spec_exec c w of
        (out, w') \<Rightarrow> (case spec_run cs w' of (outs, w'') \<Rightarrow> (out # outs, w'')))"

subsection \<open>Examples\<close>

text \<open>
  An example: the Map left by \<^verbatim>\<open>Make(3)\<close>, \<^verbatim>\<open>Store(0, 10)\<close> and \<^verbatim>\<open>Store(5, 7)\<close> for keys
  that hash to themselves.
\<close>

definition example_Map :: "(nat, int) Map" where
  "example_Map =
     \<lparr>buckets = [\<lparr>m = Some [0 \<mapsto> 10]\<rparr>, \<lparr>m = None\<rparr>, \<lparr>m = Some [5 \<mapsto> 7]\<rparr>],
      hash = (\<lambda>k. of_nat k)\<rparr>"

text \<open>
  For a pass of \<^verbatim>\<open>Iter\<close> over the example: tables are ranged over by increasing key, and
  the callback deletes the key it is given, as the callback of the package's test does,
  counts its calls and stops at key \<open>0\<close>.
\<close>

definition example_enum :: "(nat \<rightharpoonup> int) \<Rightarrow> nat list" where
  "example_enum t = filter (\<lambda>k. t k \<noteq> None) [0, 1, 2, 3, 4, 5]"

definition example_yield :: "(nat, int, nat) yield" where
  "example_yield k v =
     (\<lambda>(mp, s). (k \<noteq> 0, (case Delete mp k of Inl e \<Rightarrow> mp | Inr mp' \<Rightarrow> mp'), Suc s))"

text \<open>
  A sequence of calls with what it gives back, and a pass of \<^verbatim>\<open>Iter\<close> that takes the
  buckets in reverse and each table by increasing key.
\<close>

definition example_calls :: "(nat, int, nat) call list" where
  "example_calls =
     [CallStore 1 10, CallLoad 1, CallLoadOrStore 5 50, CallLoadOrStoreFunc 6 (\<lambda>s. (42, Suc s)),
      CallSwap 1 9, CallLoadAndDelete 5, CallDelete 6, CallLoad 6, CallLoad 1, CallClear,
      CallLoad 1]"

definition example_outcomes :: "(nat, int) outcome list" where
  "example_outcomes =
     [Nothing, Returned 10 True, Returned 50 False, Returned 42 False,
      Returned 10 True, Returned 50 True, Nothing, Returned 0 False, Returned 9 True, Nothing,
      Returned 0 False]"

definition example_pass :: "(nat, int, nat) call" where
  "example_pass = CallIter rev (\<lambda>t. sorted_list_of_set (dom t))"

section \<open>Lemmas\<close>

subsection \<open>Routing lemmas\<close>

lemma idx_less:
  "0 < n \<Longrightarrow> unat (h mod (of_nat n :: 64 word)) < n"
proof (cases "(of_nat n :: 64 word) = 0")
  case True
  assume "0 < n"
  have "unat h < 2 ^ 64" using unsigned_less [of h] by simp
  moreover have "n mod 2 ^ 64 = 0"
    using True unat_of_nat [where 'a = 64, of n] by simp
  with \<open>0 < n\<close> have "2 ^ 64 \<le> n"
    by (metis mod_less not_less less_numeral_extra(3))
  ultimately show ?thesis using True by simp
next
  case False
  then have "unat (h mod of_nat n) < unat (of_nat n :: 64 word)"
    by (simp add: unat_mod unat_gt_0)
  also have "\<dots> \<le> n" by (simp add: unat_of_nat)
  finally show ?thesis .
qed

lemma of_nat_len_neq0:
  assumes "0 < n" and "n < 2 ^ 63"
  shows "(of_nat n :: 64 word) \<noteq> 0"
proof
  assume "(of_nat n :: 64 word) = 0"
  then have "n mod 2 ^ 64 = 0"
    using unat_of_nat [where 'a = 64, of n] by simp
  with assms show False by simp
qed

lemma route_less: "Map_inv mp \<Longrightarrow> route mp key < length (buckets mp)"
  by (simp add: route_def Map_inv_def idx_less)

lemma get_route: "Map_inv mp \<Longrightarrow> get mp key = Inr (route mp key)"
  using route_less [of mp key]
  by (simp add: get_def Map_inv_def of_nat_len_neq0 Let_def route_def)

lemma route_setbkt [simp]: "route (setbkt mp i b) key = route mp key"
  by (simp add: route_def setbkt_def)

lemma Map_inv_setbkt [simp]: "Map_inv (setbkt mp i b) = Map_inv mp"
  by (simp add: Map_inv_def setbkt_def)

lemma entry_setbkt:
  "i < length (buckets mp) \<Longrightarrow>
   entry (setbkt mp i b) key =
     (if route mp key = i then (case m b of None \<Rightarrow> None | Some t \<Rightarrow> t key) else entry mp key)"
  by (simp add: entry_def) (simp add: setbkt_def)

lemma mapaccess_entry:
  "mapaccess (buckets mp ! route mp key) key =
     (case entry mp key of None \<Rightarrow> (0, False) | Some v \<Rightarrow> (v, True))"
  by (simp add: mapaccess_def entry_def split: option.splits)

lemma mapassign_mapinit:
  "mapassign (mapinit bkt) key val =
     Inr \<lparr>m = Some ((case m bkt of None \<Rightarrow> Map.empty | Some t \<Rightarrow> t)(key \<mapsto> val))\<rparr>"
  by (simp add: mapassign_def mapinit_def split: option.splits)

text \<open>The Map after a write of \<open>val\<close> under \<open>key\<close>, and after a removal of \<open>key\<close>.\<close>

lemma entry_assign:
  assumes "Map_inv mp"
  shows "entry (setbkt mp (route mp key)
      \<lparr>m = Some ((case m (buckets mp ! route mp key) of None \<Rightarrow> Map.empty | Some t \<Rightarrow> t)(key \<mapsto> val))\<rparr>)
        = (entry mp)(key \<mapsto> val)"
proof
  fix k
  show "entry (setbkt mp (route mp key)
      \<lparr>m = Some ((case m (buckets mp ! route mp key) of None \<Rightarrow> Map.empty | Some t \<Rightarrow> t)(key \<mapsto> val))\<rparr>) k
        = ((entry mp)(key \<mapsto> val)) k"
    using route_less [OF assms, of key]
    by (auto simp: entry_setbkt) (auto simp: entry_def split: option.splits)
qed

lemma entry_delete:
  assumes "Map_inv mp"
  shows "entry (setbkt mp (route mp key) (mapdelete (buckets mp ! route mp key) key))
        = (entry mp)(key := None)"
proof
  fix k
  show "entry (setbkt mp (route mp key) (mapdelete (buckets mp ! route mp key) key)) k
        = ((entry mp)(key := None)) k"
    using route_less [OF assms, of key]
    by (auto simp: entry_setbkt mapdelete_def split: option.splits)
       (auto simp: entry_def split: option.splits)
qed

lemma setbkt_mapdelete_absent:
  "entry mp key = None \<Longrightarrow>
   setbkt mp (route mp key) (mapdelete (buckets mp ! route mp key) key) = mp"
proof -
  assume absent: "entry mp key = None"
  have "mapdelete (buckets mp ! route mp key) key = buckets mp ! route mp key"
  proof (cases "m (buckets mp ! route mp key)")
    case None
    then show ?thesis by (simp add: mapdelete_def)
  next
    case (Some t)
    with absent have "t key = None" by (simp add: entry_def)
    then have "t(key := None) = t" by (rule fun_upd_idem)
    with Some show ?thesis by (simp add: mapdelete_def)
  qed
  then show ?thesis by (simp add: setbkt_def)
qed

subsection \<open>The operations in terms of the entries\<close>

lemma Load_entry:
  "Map_inv mp \<Longrightarrow> Load mp key = Inr (found (entry mp key))"
  by (simp add: Load_def get_route mapaccess_entry found_def)

lemma Store_entry:
  assumes "Map_inv mp"
  shows "\<exists>mp'. Store mp key val = Inr mp' \<and> Map_inv mp' \<and> entry mp' = (entry mp)(key \<mapsto> val)"
  using assms entry_assign [OF assms, of key val]
  by (simp add: Store_def get_route mapassign_mapinit)

lemma Delete_entry:
  assumes "Map_inv mp"
  shows "\<exists>mp'. Delete mp key = Inr mp' \<and> Map_inv mp' \<and> entry mp' = (entry mp)(key := None)
            \<and> (entry mp key = None \<longrightarrow> mp' = mp)"
  using assms entry_delete [OF assms, of key]
  by (simp add: Delete_def get_route setbkt_mapdelete_absent)

lemma LoadAndDelete_entry:
  assumes "Map_inv mp"
  shows "\<exists>mp'. LoadAndDelete mp key = Inr (found (entry mp key), mp') \<and> Map_inv mp'
            \<and> entry mp' = (entry mp)(key := None)"
  using assms entry_delete [OF assms, of key]
  by (cases "entry mp key")
     (auto simp: LoadAndDelete_def get_route mapaccess_entry found_def)

lemma LoadOrStore_entry:
  assumes "Map_inv mp"
  shows "\<exists>mp'. LoadOrStore mp key val =
            Inr (case entry mp key of None \<Rightarrow> (val, False) | Some v \<Rightarrow> (v, True), mp')
          \<and> Map_inv mp'
          \<and> entry mp' = (case entry mp key of None \<Rightarrow> (entry mp)(key \<mapsto> val) | Some v \<Rightarrow> entry mp)
          \<and> (entry mp key \<noteq> None \<longrightarrow> mp' = mp)"
  using assms entry_assign [OF assms, of key val]
  by (cases "entry mp key")
     (auto simp: LoadOrStore_def get_route mapaccess_entry mapassign_mapinit)

lemma LoadOrStoreFunc_entry:
  assumes "Map_inv mp"
  shows "\<exists>mp'. LoadOrStoreFunc mp key newValue s =
            Inr (case entry mp key of None \<Rightarrow> (fst (newValue s), False) | Some v \<Rightarrow> (v, True),
                 mp',
                 case entry mp key of None \<Rightarrow> snd (newValue s) | Some v \<Rightarrow> s)
          \<and> Map_inv mp'
          \<and> entry mp' = (case entry mp key of None \<Rightarrow> (entry mp)(key \<mapsto> fst (newValue s))
                                             | Some v \<Rightarrow> entry mp)
          \<and> (entry mp key \<noteq> None \<longrightarrow> mp' = mp)"
  using assms entry_assign [OF assms, of key "fst (newValue s)"]
  by (cases "entry mp key")
     (auto simp: LoadOrStoreFunc_def get_route mapaccess_entry mapassign_mapinit
           split: prod.splits)

lemma Swap_entry:
  assumes "Map_inv mp"
  shows "\<exists>mp'. Swap mp key val = Inr (found (entry mp key), mp') \<and> Map_inv mp'
            \<and> entry mp' = (entry mp)(key \<mapsto> val)"
  using assms entry_assign [OF assms, of key val]
  by (cases "entry mp key")
     (auto simp: Swap_def get_route mapaccess_entry mapassign_mapinit found_def)

subsection \<open>Clear and Make\<close>

lemma Clear_loop_eq:
  "Clear_loop i mp =
     mp\<lparr>buckets := take i (buckets mp) @ map mapclear (drop i (buckets mp))\<rparr>"
proof (induction i mp rule: Clear_loop.induct)
  case (1 i mp)
  show ?case
  proof (cases "i < length (buckets mp)")
    case True
    let ?xs = "buckets mp"
    let ?mp' = "setbkt mp i (mapclear (?xs ! i))"
    have step: "Clear_loop i mp = Clear_loop (i + 1) ?mp'"
      using True by (subst Clear_loop.simps) simp
    have bs: "buckets ?mp' = ?xs[i := mapclear (?xs ! i)]"
      by (simp add: setbkt_def)
    have tk: "take (i + 1) (buckets ?mp') = take i ?xs @ [mapclear (?xs ! i)]"
      using True by (simp add: bs take_Suc_conv_app_nth)
    have dr: "drop (i + 1) (buckets ?mp') = drop (Suc i) ?xs"
      by (simp add: bs)
    have split: "drop i ?xs = ?xs ! i # drop (Suc i) ?xs"
      using True by (rule Cons_nth_drop_Suc [symmetric])
    note step
    also have "Clear_loop (i + 1) ?mp' =
            ?mp'\<lparr>buckets := take (i + 1) (buckets ?mp') @ map mapclear (drop (i + 1) (buckets ?mp'))\<rparr>"
      using True by (rule "1.IH")
    also have "\<dots> = mp\<lparr>buckets := take i ?xs @ map mapclear (drop i ?xs)\<rparr>"
      unfolding tk dr split by (simp add: setbkt_def)
    finally show ?thesis .
  next
    case False
    then show ?thesis by (subst Clear_loop.simps) simp
  qed
qed

lemma Clear_eq: "Clear mp = mp\<lparr>buckets := map mapclear (buckets mp)\<rparr>"
  by (simp add: Clear_def Clear_loop_eq)

lemma Map_inv_Clear [simp]: "Map_inv (Clear mp) = Map_inv mp"
  by (simp add: Clear_eq Map_inv_def)

lemma route_Clear [simp]: "route (Clear mp) key = route mp key"
  by (simp add: Clear_eq route_def)

lemma entry_Clear: "Map_inv mp \<Longrightarrow> entry (Clear mp) = Map.empty"
proof
  fix k
  assume "Map_inv mp"
  then have "route mp k < length (buckets mp)" by (rule route_less)
  then show "entry (Clear mp) k = None"
    by (simp add: entry_def) (simp add: Clear_eq mapclear_def split: option.splits)
qed

lemma sint_count:
  fixes n :: "64 word"
  assumes "0 < sint n"
  shows "0 < nat (sint n)" and "nat (sint n) < 2 ^ 63"
  using assms sint_lt [of n] by simp_all

lemma Make_buckets:
  "buckets (Make h bs) =
     replicate (if bs \<noteq> [] \<and> 0 < sint (hd bs) then nat (sint (hd bs)) else 31) \<lparr>m = None\<rparr>"
  by (cases bs) (simp_all add: Make_def)

lemma Map_inv_Make: "Map_inv (Make h bs)"
  using sint_count [of "hd bs"] by (simp add: Map_inv_def Make_buckets)

lemma entry_Make: "entry (Make h bs) = Map.empty"
proof
  fix k
  have "route (Make h bs :: ('a, 'b) Map) k < length (buckets (Make h bs :: ('a, 'b) Map))"
    by (rule route_less) (rule Map_inv_Make)
  then show "entry (Make h bs :: ('a, 'b) Map) k = None"
    by (simp add: entry_def) (simp add: Make_buckets)
qed

subsection \<open>Reads\<close>

lemma found_True [simp]: "found x = (v, True) \<longleftrightarrow> x = Some v"
  by (cases x) (simp_all add: found_def)

lemma found_False [simp]: "found x = (v, False) \<longleftrightarrow> x = None \<and> v = 0"
  by (cases x) (auto simp: found_def)

lemma found_Some [simp]: "found (Some v) = (v, True)"
  by (simp add: found_def)

lemma found_None [simp]: "found None = (0, False)"
  by (simp add: found_def)

subsection \<open>The example Map\<close>

lemma example_Map_inv: "Map_inv example_Map"
  by (simp add: Map_inv_def example_Map_def)

lemma example_Map_built:
  "\<exists>mp1. Store (Make (\<lambda>k. of_nat k) [3]) 0 10 = Inr mp1 \<and> Store mp1 5 7 = Inr example_Map"
  by (simp add: example_Map_def Make_def Store_def get_def setbkt_def mapassign_def
        mapinit_def numeral_3_eq_3)

lemma example_Load_0: "Load example_Map 0 = Inr (10, True)"
  by (simp add: Load_def get_def example_Map_def mapaccess_def)

lemma example_Load_4: "Load example_Map 4 = Inr (0, False)"
  by (simp add: Load_def get_def example_Map_def mapaccess_def)

lemma example_Load_5: "Load example_Map 5 = Inr (7, True)"
  by (simp add: Load_def get_def example_Map_def mapaccess_def)

lemma example_Store:
  "Store example_Map 4 8 =
     Inr \<lparr>buckets = [\<lparr>m = Some [0 \<mapsto> 10]\<rparr>, \<lparr>m = Some [4 \<mapsto> 8]\<rparr>, \<lparr>m = Some [5 \<mapsto> 7]\<rparr>],
          hash = (\<lambda>k. of_nat k)\<rparr>"
  by (simp add: Store_def get_def example_Map_def mapassign_def mapinit_def setbkt_def)

subsection \<open>Iter: the answers of yield\<close>

lemma range_m_answers:
  "range_m i yield ks w = (cs, r) \<Longrightarrow>
     (\<forall>c \<in> set (butlast cs). snd (snd c)) \<and>
     ((\<forall>w'. r \<noteq> Inr (True, w')) \<longrightarrow> (\<forall>c \<in> set cs. snd (snd c)))"
proof (induction i yield ks w arbitrary: cs r rule: range_m.induct)
  case (1 i yield w)
  then show ?case by simp
next
  case (2 i yield k ks mp s)
  show ?case
  proof (cases "i < length (buckets mp)")
    case False
    with "2.prems" show ?thesis by simp
  next
    case inrange: True
    show ?thesis
    proof (cases "case m (buckets mp ! i) of None \<Rightarrow> None | Some t \<Rightarrow> t k")
      case None
      with inrange "2.prems" have "range_m i yield ks (mp, s) = (cs, r)" by simp
      with "2.IH"(1) [OF inrange None] show ?thesis .
    next
      case (Some v)
      obtain b w' where y: "yield k v (mp, s) = (b, w')" by (cases "yield k v (mp, s)")
      show ?thesis
      proof (cases b)
        case False
        with inrange Some y "2.prems" have "cs = [(k, v, False)]" and "r = Inr (True, w')"
          by auto
        then show ?thesis by (simp del: split_paired_All)
      next
        case True
        obtain cs' r' where rest: "range_m i yield ks w' = (cs', r')"
          by (cases "range_m i yield ks w'")
        from True y have y': "(True, w') = yield k v (mp, s)" by simp
        have ih: "(\<forall>c \<in> set (butlast cs'). snd (snd c)) \<and>
                  ((\<forall>w''. r' \<noteq> Inr (True, w'')) \<longrightarrow> (\<forall>c \<in> set cs'. snd (snd c)))"
          by (rule "2.IH"(2) [OF inrange Some y' refl rest])
        from inrange Some y True rest "2.prems"
        have "cs = (k, v, True) # cs'" and "r = r'" by auto
        with ih show ?thesis by auto
      qed
    qed
  qed
qed

lemma Iter_order_answers:
  "Iter_order enum yield order w = (cs, r) \<Longrightarrow> \<forall>c \<in> set (butlast cs). snd (snd c)"
proof (induction enum yield order w arbitrary: cs r rule: Iter_order.induct)
  case (1 enum yield w)
  then show ?case by simp
next
  case (2 enum yield i order mp s)
  let ?ks = "case m (buckets mp ! i) of None \<Rightarrow> [] | Some t \<Rightarrow> enum t"
  show ?case
  proof (cases "i < length (buckets mp)")
    case False
    with "2.prems" show ?thesis by simp
  next
    case inrange: True
    obtain cs1 r1 where rg: "range_m i yield ?ks (mp, s) = (cs1, r1)"
      by (cases "range_m i yield ?ks (mp, s)")
    note a = range_m_answers [OF rg]
    show ?thesis
    proof (cases r1)
      case (Inl e)
      with inrange rg "2.prems" have "cs = cs1" by simp
      with a show ?thesis by simp
    next
      case (Inr bw)
      obtain broken w' where bw: "bw = (broken, w')" by (cases bw)
      show ?thesis
      proof (cases broken)
        case True
        with inrange rg Inr bw "2.prems" have "cs = cs1" by simp
        with a show ?thesis by simp
      next
        case False
        obtain cs2 r2 where rest: "Iter_order enum yield order w' = (cs2, r2)"
          by (cases "Iter_order enum yield order w'")
        from inrange rg Inr bw False rest "2.prems" have cs: "cs = cs1 @ cs2" by simp
        from a Inr bw False have all1: "\<forall>c \<in> set cs1. snd (snd c)" by simp
        from False have nb: "broken = False" by simp
        have all2: "\<forall>c \<in> set (butlast cs2). snd (snd c)"
          by (rule "2.IH" [OF inrange rg [symmetric] Inr bw [symmetric] nb rest])
        from cs all1 all2 show ?thesis
          by (auto simp: butlast_append dest: in_set_butlastD)
      qed
    qed
  qed
qed

lemma false_answer_is_last:
  assumes "\<forall>c \<in> set (butlast cs). snd (snd c)" and "n < length cs" and "\<not> snd (snd (cs ! n))"
  shows "length cs = Suc n"
proof (rule ccontr)
  assume "length cs \<noteq> Suc n"
  with assms(2) have "n < length (butlast cs)" by simp
  then have "butlast cs ! n \<in> set (butlast cs)" by (rule nth_mem)
  moreover from \<open>n < length (butlast cs)\<close> have "butlast cs ! n = cs ! n"
    by (rule nth_butlast)
  ultimately show False using assms(1,3) by auto
qed

subsection \<open>Keys stay in their buckets\<close>

lemma routed_setbkt:
  assumes "routed mp" and "i < length (buckets mp)"
    and "\<And>t. m b = Some t \<Longrightarrow> finite (dom t) \<and> (\<forall>k \<in> dom t. route mp k = i)"
  shows "routed (setbkt mp i b)"
  unfolding routed_def
proof (intro allI impI)
  fix j t
  assume j: "j < length (buckets (setbkt mp i b))"
    and t: "m (buckets (setbkt mp i b) ! j) = Some t"
  show "finite (dom t) \<and> (\<forall>k \<in> dom t. route (setbkt mp i b) k = j)"
  proof (cases "j = i")
    case True
    with assms(2) t have "m b = Some t" by (simp add: setbkt_def)
    with assms(3) True show ?thesis by simp
  next
    case False
    with j t have "j < length (buckets mp)" and "m (buckets mp ! j) = Some t"
      by (simp_all add: setbkt_def)
    with assms(1) show ?thesis by (simp add: routed_def)
  qed
qed

lemma routed_assign:
  assumes "Map_inv mp" and "routed mp"
  shows "routed (setbkt mp (route mp key)
      \<lparr>m = Some ((case m (buckets mp ! route mp key) of None \<Rightarrow> Map.empty | Some t \<Rightarrow> t)(key \<mapsto> val))\<rparr>)"
proof (rule routed_setbkt [OF assms(2) route_less [OF assms(1)]])
  fix t
  assume "m \<lparr>m = Some ((case m (buckets mp ! route mp key) of None \<Rightarrow> Map.empty | Some t \<Rightarrow> t)(key \<mapsto> val))\<rparr> = Some t"
  then have t: "t = (case m (buckets mp ! route mp key) of None \<Rightarrow> Map.empty | Some t \<Rightarrow> t)(key \<mapsto> val)"
    by simp
  show "finite (dom t) \<and> (\<forall>k \<in> dom t. route mp k = route mp key)"
  proof (cases "m (buckets mp ! route mp key)")
    case None
    with t show ?thesis by simp
  next
    case (Some t0)
    with assms(2) route_less [OF assms(1), of key]
    have "finite (dom t0) \<and> (\<forall>k \<in> dom t0. route mp k = route mp key)"
      by (simp add: routed_def)
    with t Some show ?thesis by auto
  qed
qed

lemma routed_delete:
  assumes "Map_inv mp" and "routed mp"
  shows "routed (setbkt mp (route mp key) (mapdelete (buckets mp ! route mp key) key))"
proof (rule routed_setbkt [OF assms(2) route_less [OF assms(1)]])
  fix t
  assume a: "m (mapdelete (buckets mp ! route mp key) key) = Some t"
  then obtain t0 where t0: "m (buckets mp ! route mp key) = Some t0" and t: "t = t0(key := None)"
    by (auto simp: mapdelete_def split: option.splits)
  from t0 assms(2) route_less [OF assms(1), of key]
  have "finite (dom t0) \<and> (\<forall>k \<in> dom t0. route mp k = route mp key)"
    by (simp add: routed_def)
  with t show "finite (dom t) \<and> (\<forall>k \<in> dom t. route mp k = route mp key)" by auto
qed

lemma routed_Clear: "routed (Clear mp)"
  by (auto simp: routed_def Clear_eq mapclear_def split: option.splits)

lemma routed_Make: "routed (Make h bs)"
  by (simp add: routed_def Make_buckets)

lemma Store_routed:
  "Map_inv mp \<Longrightarrow> routed mp \<Longrightarrow> Store mp key val = Inr mp' \<Longrightarrow> routed mp'"
  using routed_assign [of mp key val]
  by (auto simp: Store_def get_route mapassign_mapinit)

lemma Delete_routed:
  "Map_inv mp \<Longrightarrow> routed mp \<Longrightarrow> Delete mp key = Inr mp' \<Longrightarrow> routed mp'"
  using routed_delete [of mp key]
  by (auto simp: Delete_def get_route)

lemma LoadAndDelete_routed:
  "Map_inv mp \<Longrightarrow> routed mp \<Longrightarrow> LoadAndDelete mp key = Inr (r, mp') \<Longrightarrow> routed mp'"
  using routed_delete [of mp key]
  by (auto simp: LoadAndDelete_def get_route Let_def split: prod.splits if_splits)

lemma LoadOrStore_routed:
  "Map_inv mp \<Longrightarrow> routed mp \<Longrightarrow> LoadOrStore mp key val = Inr (r, mp') \<Longrightarrow> routed mp'"
  using routed_assign [of mp key val]
  by (auto simp: LoadOrStore_def get_route mapassign_mapinit Let_def
           split: prod.splits if_splits)

lemma LoadOrStoreFunc_routed:
  "Map_inv mp \<Longrightarrow> routed mp \<Longrightarrow> LoadOrStoreFunc mp key newValue s = Inr (r, mp', s')
     \<Longrightarrow> routed mp'"
  using routed_assign [of mp key "fst (newValue s)"]
  by (auto simp: LoadOrStoreFunc_def get_route mapassign_mapinit Let_def
           split: prod.splits if_splits)

lemma Swap_routed:
  "Map_inv mp \<Longrightarrow> routed mp \<Longrightarrow> Swap mp key val = Inr (r, mp') \<Longrightarrow> routed mp'"
  using routed_assign [of mp key val]
  by (auto simp: Swap_def get_route mapassign_mapinit Let_def split: prod.splits)

subsection \<open>A complete pass of Iter\<close>

lemma range_m_observe:
  assumes "i < length (buckets mp)"
  shows "range_m i (\<lambda>k v w. (True, w)) ks (mp, s) =
           (map (\<lambda>k. (k, the (slot mp i k), True)) (filter (\<lambda>k. slot mp i k \<noteq> None) ks),
            Inr (False, mp, s))"
  using assms by (induction ks) (auto simp: slot_def)

lemma Iter_order_observe:
  assumes "\<forall>i \<in> set order. i < length (buckets mp)"
  shows "\<exists>cs. Iter_order enum (\<lambda>k v w. (True, w)) order (mp, s) = (cs, Inr (mp, s))
            \<and> (\<lambda>(k, v, a). (k, v)) ` set cs =
                {(k, v). \<exists>i \<in> set order. \<exists>t. m (buckets mp ! i) = Some t
                            \<and> k \<in> set (enum t) \<and> t k = Some v}"
  using assms
proof (induction order)
  case Nil
  then show ?case by simp
next
  case (Cons i order)
  then have i: "i < length (buckets mp)" and rest: "\<forall>j \<in> set order. j < length (buckets mp)"
    by simp_all
  from Cons.IH [OF rest] obtain cs'
    where run': "Iter_order enum (\<lambda>k v w. (True, w)) order (mp, s) = (cs', Inr (mp, s))"
      and set': "(\<lambda>(k, v, a). (k, v)) ` set cs' =
                {(k, v). \<exists>i \<in> set order. \<exists>t. m (buckets mp ! i) = Some t
                            \<and> k \<in> set (enum t) \<and> t k = Some v}"
    by blast
  let ?ks = "case m (buckets mp ! i) of None \<Rightarrow> [] | Some t \<Rightarrow> enum t"
  let ?cs = "map (\<lambda>k. (k, the (slot mp i k), True)) (filter (\<lambda>k. slot mp i k \<noteq> None) ?ks)"
  have run: "Iter_order enum (\<lambda>k v w. (True, w)) (i # order) (mp, s) = (?cs @ cs', Inr (mp, s))"
    using i run' by (simp add: range_m_observe)
  have here: "(\<lambda>(k, v, a). (k, v)) ` set ?cs =
                {(k, v). \<exists>t. m (buckets mp ! i) = Some t \<and> k \<in> set (enum t) \<and> t k = Some v}"
    by (cases "m (buckets mp ! i)") (auto simp: slot_def image_iff)
  have "(\<lambda>(k, v, a). (k, v)) ` set (?cs @ cs') =
          {(k, v). \<exists>j \<in> set (i # order). \<exists>t. m (buckets mp ! j) = Some t
                            \<and> k \<in> set (enum t) \<and> t k = Some v}"
    unfolding set_append image_Un here set' by auto
  with run show ?case by blast
qed

lemma Iter_observe:
  assumes "Map_inv mp" and "routed mp"
    and "\<forall>xs. set (shuffle xs) = set xs" and "\<forall>t. finite (dom t) \<longrightarrow> set (enum t) = dom t"
  shows "\<exists>cs. Iter mp shuffle enum (\<lambda>k v w. (True, w)) (mp, s) = (cs, Inr (mp, s))
            \<and> (\<lambda>(k, v, a). (k, v)) ` set cs = {(k, v). entry mp k = Some v}"
proof -
  let ?order = "shuffle [0..<length (buckets mp)]"
  from assms(3) have order: "set ?order = {0..<length (buckets mp)}" by simp
  then have "\<forall>i \<in> set ?order. i < length (buckets mp)" by simp
  from Iter_order_observe [OF this, of enum s] obtain cs
    where run: "Iter_order enum (\<lambda>k v w. (True, w)) ?order (mp, s) = (cs, Inr (mp, s))"
      and cs: "(\<lambda>(k, v, a). (k, v)) ` set cs =
                {(k, v). \<exists>i \<in> set ?order. \<exists>t. m (buckets mp ! i) = Some t
                            \<and> k \<in> set (enum t) \<and> t k = Some v}"
    by blast
  have "{(k, v). \<exists>i \<in> set ?order. \<exists>t. m (buckets mp ! i) = Some t
                            \<and> k \<in> set (enum t) \<and> t k = Some v}
        = {(k, v). entry mp k = Some v}"
  proof (intro set_eqI iffI; clarify)
    fix k v i t
    assume i: "i \<in> set ?order" and t: "m (buckets mp ! i) = Some t"
      and tk: "t k = Some v"
    from i order have less: "i < length (buckets mp)" by simp
    with assms(2) t tk have "route mp k = i" by (auto simp: routed_def)
    with t tk show "entry mp k = Some v" by (simp add: entry_def)
  next
    fix k v
    assume e: "entry mp k = Some v"
    then obtain t where t: "m (buckets mp ! route mp k) = Some t" and tk: "t k = Some v"
      by (auto simp: entry_def split: option.splits)
    from route_less [OF assms(1), of k] order have r: "route mp k \<in> set ?order" by simp
    from assms(1,2) t route_less [OF assms(1), of k] have "finite (dom t)"
      by (simp add: routed_def)
    with assms(4) tk have "k \<in> set (enum t)" by auto
    with r t tk
    show "\<exists>i \<in> set ?order. \<exists>t. m (buckets mp ! i) = Some t \<and> k \<in> set (enum t) \<and> t k = Some v"
      by blast
  qed
  with run cs show ?thesis by (simp add: Iter_def)
qed

subsection \<open>The Map implements the specification's mapping\<close>

lemma exec_simulates:
  assumes "Map_inv mp" and "routed mp" and "draws_ok c"
  shows "\<exists>out mp' s'. exec c (mp, s) = Inr (out, mp', s') \<and> Map_inv mp' \<and> routed mp'
            \<and> spec_exec c (entry mp, s) = (out, entry mp', s')"
proof (cases c)
  case (CallLoad k)
  with assms show ?thesis
    by (cases "entry mp k") (simp_all add: Load_entry)
next
  case (CallStore k v)
  from Store_entry [OF assms(1), of k v] obtain mp'
    where st: "Store mp k v = Inr mp'" and "Map_inv mp'" and "entry mp' = (entry mp)(k \<mapsto> v)"
    by blast
  moreover from Store_routed [OF assms(1,2) st] have "routed mp'" .
  ultimately show ?thesis using CallStore by simp
next
  case (CallDelete k)
  from Delete_entry [OF assms(1), of k] obtain mp'
    where st: "Delete mp k = Inr mp'" and "Map_inv mp'" and "entry mp' = (entry mp)(k := None)"
    by (elim exE conjE)
  moreover from Delete_routed [OF assms(1,2) st] have "routed mp'" .
  ultimately show ?thesis using CallDelete by simp
next
  case CallClear
  with assms(1) show ?thesis by (simp add: routed_Clear entry_Clear)
next
  case (CallLoadAndDelete k)
  from LoadAndDelete_entry [OF assms(1), of k] obtain mp'
    where st: "LoadAndDelete mp k = Inr (found (entry mp k), mp')" and "Map_inv mp'"
      and e: "entry mp' = (entry mp)(k := None)"
    by blast
  moreover from LoadAndDelete_routed [OF assms(1,2) st] have "routed mp'" .
  moreover have "entry mp k = None \<Longrightarrow> (entry mp)(k := None) = entry mp"
    by (rule fun_upd_idem)
  ultimately show ?thesis using CallLoadAndDelete
    by (cases "entry mp k") simp_all
next
  case (CallLoadOrStore k v)
  from LoadOrStore_entry [OF assms(1), of k v] obtain mp'
    where st: "LoadOrStore mp k v =
                 Inr (case entry mp k of None \<Rightarrow> (v, False) | Some x \<Rightarrow> (x, True), mp')"
      and "Map_inv mp'"
      and "entry mp' = (case entry mp k of None \<Rightarrow> (entry mp)(k \<mapsto> v) | Some x \<Rightarrow> entry mp)"
    by (elim exE conjE)
  moreover from LoadOrStore_routed [OF assms(1,2) st] have "routed mp'" .
  ultimately show ?thesis using CallLoadOrStore
    by (cases "entry mp k") simp_all
next
  case (CallLoadOrStoreFunc k newValue)
  from LoadOrStoreFunc_entry [OF assms(1), of k newValue s] obtain mp'
    where st: "LoadOrStoreFunc mp k newValue s =
                 Inr (case entry mp k of None \<Rightarrow> (fst (newValue s), False) | Some x \<Rightarrow> (x, True),
                      mp',
                      case entry mp k of None \<Rightarrow> snd (newValue s) | Some x \<Rightarrow> s)"
      and "Map_inv mp'"
      and "entry mp' = (case entry mp k of None \<Rightarrow> (entry mp)(k \<mapsto> fst (newValue s))
                                           | Some x \<Rightarrow> entry mp)"
    by (elim exE conjE)
  moreover from LoadOrStoreFunc_routed [OF assms(1,2) st] have "routed mp'" .
  ultimately show ?thesis using CallLoadOrStoreFunc
    by (cases "entry mp k") (simp_all split: prod.splits)
next
  case (CallSwap k v)
  from Swap_entry [OF assms(1), of k v] obtain mp'
    where st: "Swap mp k v = Inr (found (entry mp k), mp')" and "Map_inv mp'"
      and "entry mp' = (entry mp)(k \<mapsto> v)"
    by blast
  moreover from Swap_routed [OF assms(1,2) st] have "routed mp'" .
  ultimately show ?thesis using CallSwap
    by (cases "entry mp k") simp_all
next
  case (CallIter shuffle enum)
  with assms(3) have "\<forall>xs. set (shuffle xs) = set xs"
    and "\<forall>t. finite (dom t) \<longrightarrow> set (enum t) = dom t"
    by simp_all
  from Iter_observe [OF assms(1,2) this, of s] assms(1,2) CallIter
  show ?thesis by auto
qed

lemma run_simulates:
  assumes "Map_inv mp" and "routed mp" and "\<forall>c \<in> set cs. draws_ok c"
  shows "\<exists>outs mp' s'. run cs (mp, s) = Inr (outs, mp', s')
            \<and> spec_run cs (entry mp, s) = (outs, entry mp', s')"
  using assms
proof (induction cs arbitrary: mp s)
  case Nil
  then show ?case by simp
next
  case (Cons c cs)
  then have c: "draws_ok c" and cs: "\<forall>c \<in> set cs. draws_ok c" by simp_all
  from exec_simulates [OF Cons.prems(1,2) c, of s] obtain out mp1 s1
    where ex: "exec c (mp, s) = Inr (out, mp1, s1)" and inv1: "Map_inv mp1"
      and routed1: "routed mp1" and sp: "spec_exec c (entry mp, s) = (out, entry mp1, s1)"
    by blast
  from Cons.IH [OF inv1 routed1 cs, of s1] obtain outs mp' s'
    where rn: "run cs (mp1, s1) = Inr (outs, mp', s')"
      and sr: "spec_run cs (entry mp1, s1) = (outs, entry mp', s')"
    by blast
  from ex rn sp sr
  have "run (c # cs) (mp, s) = Inr (out # outs, mp', s')"
    and "spec_run (c # cs) (entry mp, s) = (out # outs, entry mp', s')"
    by simp_all
  then show ?case by blast
qed

lemma hash_Make_1: "hash (Make h [1]) = (\<lambda>k. 0)"
  by (simp add: Make_def)

lemma get_Make_1: "get (Make h [1]) k = Inr 0"
  by (simp add: get_def Make_def)

section \<open>Properties\<close>

text \<open>
  C1. For every key \<open>k\<close> and value \<open>v\<close>, \<^verbatim>\<open>Store(k, v)\<close> followed by \<^verbatim>\<open>Load(k)\<close> on the same
  Map returns \<open>(v, true)\<close>: on a well-formed Map the store returns, and the load from the
  Map it leaves gives \<open>v\<close> and \<^verbatim>\<open>true\<close>.
\<close>

theorem Store_then_Load:
  assumes "Map_inv mp"
  shows "\<exists>mp'. Store mp k v = Inr mp' \<and> Load mp' k = Inr (v, True)"
proof -
  from Store_entry [OF assms, of k v] obtain mp'
    where "Store mp k v = Inr mp'" and "Map_inv mp'" and "entry mp' = (entry mp)(k \<mapsto> v)"
    by blast
  then show ?thesis by (simp add: Load_entry)
qed

theorem Store_then_Load_witness:
  "Map_inv example_Map \<and> Load example_Map 4 = Inr (0, False)
   \<and> (\<exists>mp'. Store example_Map 4 8 = Inr mp' \<and> Load mp' 4 = Inr (8, True))"
  using Store_then_Load [OF example_Map_inv, of 4 8] example_Map_inv example_Load_4
  by simp

text \<open>
  C2. \<^verbatim>\<open>LoadOrStore(k, v)\<close>: when \<open>k\<close> is present it returns the existing value with
  \<^verbatim>\<open>loaded = true\<close> and leaves the Map as it is; when \<open>k\<close> is absent it stores \<open>v\<close> and
  returns \<open>(v, false)\<close>, and a second \<^verbatim>\<open>LoadOrStore(k, v2)\<close> then returns \<open>(v, true)\<close>
  and keeps \<open>v\<close>.
\<close>

theorem LoadOrStore_present_absent:
  assumes "Map_inv mp"
  shows "(\<forall>old. Load mp k = Inr (old, True) \<longrightarrow> LoadOrStore mp k v = Inr ((old, True), mp))
       \<and> (Load mp k = Inr (0, False) \<longrightarrow>
            (\<exists>mp'. LoadOrStore mp k v = Inr ((v, False), mp')
                 \<and> Load mp' k = Inr (v, True)
                 \<and> LoadOrStore mp' k v2 = Inr ((v, True), mp')))"
proof (intro conjI allI impI)
  fix old
  assume "Load mp k = Inr (old, True)"
  then have "entry mp k = Some old" using assms by (simp add: Load_entry)
  with LoadOrStore_entry [OF assms, of k v]
  show "LoadOrStore mp k v = Inr ((old, True), mp)" by auto
next
  assume "Load mp k = Inr (0, False)"
  then have absent: "entry mp k = None" using assms by (simp add: Load_entry)
  with LoadOrStore_entry [OF assms, of k v] obtain mp'
    where first: "LoadOrStore mp k v = Inr ((v, False), mp')"
      and inv': "Map_inv mp'" and e': "entry mp' = (entry mp)(k \<mapsto> v)"
    by auto
  from e' have present: "entry mp' k = Some v" by simp
  with LoadOrStore_entry [OF inv', of k v2]
  have second: "LoadOrStore mp' k v2 = Inr ((v, True), mp')" by auto
  from present inv' have "Load mp' k = Inr (v, True)" by (simp add: Load_entry)
  with first second
  show "\<exists>mp'. LoadOrStore mp k v = Inr ((v, False), mp')
                 \<and> Load mp' k = Inr (v, True)
                 \<and> LoadOrStore mp' k v2 = Inr ((v, True), mp')"
    by blast
qed

theorem LoadOrStore_present_absent_witness:
  "Map_inv example_Map
   \<and> Load example_Map 5 = Inr (7, True)
   \<and> LoadOrStore example_Map 5 9 = Inr ((7, True), example_Map)
   \<and> Load example_Map 4 = Inr (0, False)
   \<and> (\<exists>mp'. LoadOrStore example_Map 4 8 = Inr ((8, False), mp')
          \<and> Load mp' 4 = Inr (8, True)
          \<and> LoadOrStore mp' 4 9 = Inr ((8, True), mp'))"
  using LoadOrStore_present_absent [OF example_Map_inv, of 5 9 9]
        LoadOrStore_present_absent [OF example_Map_inv, of 4 8 9]
        example_Map_inv example_Load_5 example_Load_4
  by simp

text \<open>
  C3. \<^verbatim>\<open>Swap(k, v)\<close> stores \<open>v\<close> whether or not \<open>k\<close> was present, and returns what a
  \<^verbatim>\<open>Load(k)\<close> before it returns: the prior value and whether there was one. After
  \<^verbatim>\<open>Store(k, v1)\<close>, \<^verbatim>\<open>Swap(k, v2)\<close> returns \<open>(v1, true)\<close> and the \<^verbatim>\<open>Load(k)\<close> that
  follows returns \<open>(v2, true)\<close>.
\<close>

theorem Swap_returns_prior:
  assumes "Map_inv mp"
  shows "(\<exists>prior mp'. Load mp k = Inr prior \<and> Swap mp k v = Inr (prior, mp')
            \<and> Load mp' k = Inr (v, True))
       \<and> (\<exists>mp1 mp2. Store mp k v1 = Inr mp1 \<and> Swap mp1 k v2 = Inr ((v1, True), mp2)
            \<and> Load mp2 k = Inr (v2, True))"
proof
  from Swap_entry [OF assms, of k v] obtain mp'
    where "Swap mp k v = Inr (found (entry mp k), mp')" and "Map_inv mp'"
      and "entry mp' = (entry mp)(k \<mapsto> v)"
    by blast
  then show "\<exists>prior mp'. Load mp k = Inr prior \<and> Swap mp k v = Inr (prior, mp')
            \<and> Load mp' k = Inr (v, True)"
    using assms by (simp add: Load_entry)
next
  from Store_entry [OF assms, of k v1] obtain mp1
    where st: "Store mp k v1 = Inr mp1" and inv1: "Map_inv mp1"
      and e1: "entry mp1 = (entry mp)(k \<mapsto> v1)"
    by blast
  from Swap_entry [OF inv1, of k v2] obtain mp2
    where sw: "Swap mp1 k v2 = Inr (found (entry mp1 k), mp2)" and inv2: "Map_inv mp2"
      and e2: "entry mp2 = (entry mp1)(k \<mapsto> v2)"
    by blast
  from sw e1 have "Swap mp1 k v2 = Inr ((v1, True), mp2)" by simp
  moreover from inv2 e2 have "Load mp2 k = Inr (v2, True)" by (simp add: Load_entry)
  ultimately show "\<exists>mp1 mp2. Store mp k v1 = Inr mp1 \<and> Swap mp1 k v2 = Inr ((v1, True), mp2)
            \<and> Load mp2 k = Inr (v2, True)"
    using st by blast
qed

theorem Swap_returns_prior_witness:
  "Map_inv example_Map
   \<and> (\<exists>prior mp'. Load example_Map 4 = Inr prior \<and> Swap example_Map 4 8 = Inr (prior, mp')
          \<and> Load mp' 4 = Inr (8, True))
   \<and> (\<exists>mp1 mp2. Store example_Map 4 1 = Inr mp1 \<and> Swap mp1 4 2 = Inr ((1, True), mp2)
          \<and> Load mp2 4 = Inr (2, True))"
  using Swap_returns_prior [OF example_Map_inv, of 4 8 1 2] example_Map_inv
  by simp

text \<open>
  C4. \<^verbatim>\<open>LoadOrStoreFunc(k, ctor)\<close> calls \<open>ctor\<close> exactly once when \<open>k\<close> is absent, stores
  what it returned and returns it with \<^verbatim>\<open>loaded = false\<close>; it calls \<open>ctor\<close> zero times when
  \<open>k\<close> is present and returns the existing value with \<^verbatim>\<open>loaded = true\<close>. The constructor
  counts its calls: the count goes up by one in the first case and stays in the second,
  and the state of the constructor is the one a single call leaves, or the old one.
\<close>

theorem LoadOrStoreFunc_calls_once:
  assumes "Map_inv mp"
  shows "(Load mp k = Inr (0, False) \<longrightarrow>
            (\<exists>mp'. LoadOrStoreFunc mp k (counted ctor) (s, n) =
                      Inr ((fst (ctor s), False), mp', snd (ctor s), n + 1)
                 \<and> Load mp' k = Inr (fst (ctor s), True)))
       \<and> (\<forall>old. Load mp k = Inr (old, True) \<longrightarrow>
            LoadOrStoreFunc mp k (counted ctor) (s, n) = Inr ((old, True), mp, s, n))"
proof (intro conjI allI impI)
  assume "Load mp k = Inr (0, False)"
  then have absent: "entry mp k = None" using assms by (simp add: Load_entry)
  have c: "counted ctor (s, n) = (fst (ctor s), snd (ctor s), n + 1)"
    by (simp add: counted_def split: prod.splits)
  from LoadOrStoreFunc_entry [OF assms, of k "counted ctor" "(s, n)"] absent c obtain mp'
    where "LoadOrStoreFunc mp k (counted ctor) (s, n) =
             Inr ((fst (ctor s), False), mp', snd (ctor s), n + 1)"
      and "Map_inv mp'" and "entry mp' = (entry mp)(k \<mapsto> fst (ctor s))"
    by auto
  then show "\<exists>mp'. LoadOrStoreFunc mp k (counted ctor) (s, n) =
                      Inr ((fst (ctor s), False), mp', snd (ctor s), n + 1)
                 \<and> Load mp' k = Inr (fst (ctor s), True)"
    by (auto simp: Load_entry)
next
  fix old
  assume "Load mp k = Inr (old, True)"
  then have "entry mp k = Some old" using assms by (simp add: Load_entry)
  with LoadOrStoreFunc_entry [OF assms, of k "counted ctor" "(s, n)"]
  show "LoadOrStoreFunc mp k (counted ctor) (s, n) = Inr ((old, True), mp, s, n)"
    by auto
qed

theorem LoadOrStoreFunc_calls_once_witness:
  "Map_inv example_Map
   \<and> Load example_Map 4 = Inr (0, False)
   \<and> (\<exists>mp'. LoadOrStoreFunc example_Map 4 (counted (\<lambda>s. (42, Suc s))) (0, 0) =
               Inr ((42, False), mp', 1, 1)
          \<and> Load mp' 4 = Inr (42, True))
   \<and> Load example_Map 5 = Inr (7, True)
   \<and> LoadOrStoreFunc example_Map 5 (counted (\<lambda>s. (42, Suc s))) (0, 0) =
        Inr ((7, True), example_Map, 0, 0)"
  using LoadOrStoreFunc_calls_once [OF example_Map_inv, of 4 "\<lambda>s. (42, Suc s)" 0 0]
        LoadOrStoreFunc_calls_once [OF example_Map_inv, of 5 "\<lambda>s. (42, Suc s)" 0 0]
        example_Map_inv example_Load_4 example_Load_5
  by simp

text \<open>
  C5. \<^verbatim>\<open>Delete(k)\<close>, on any well-formed Map, leaves a Map in which \<^verbatim>\<open>Load(k)\<close> returns the
  zero value and \<^verbatim>\<open>false\<close>; when \<open>k\<close> was absent the Map is the one before.
\<close>

theorem Delete_then_Load:
  assumes "Map_inv mp"
  shows "\<exists>mp'. Delete mp k = Inr mp' \<and> Load mp' k = Inr (0, False)
            \<and> (Load mp k = Inr (0, False) \<longrightarrow> mp' = mp)"
proof -
  from Delete_entry [OF assms, of k] obtain mp'
    where "Delete mp k = Inr mp'" and "Map_inv mp'" and "entry mp' = (entry mp)(k := None)"
      and "entry mp k = None \<longrightarrow> mp' = mp"
    by (elim exE conjE)
  then show ?thesis using assms by (simp add: Load_entry)
qed

theorem Delete_then_Load_witness:
  "Map_inv example_Map
   \<and> Load example_Map 5 = Inr (7, True)
   \<and> (\<exists>mp'. Delete example_Map 5 = Inr mp' \<and> Load mp' 5 = Inr (0, False))
   \<and> Load example_Map 4 = Inr (0, False)
   \<and> Delete example_Map 4 = Inr example_Map"
  using Delete_then_Load [OF example_Map_inv, of 5] Delete_then_Load [OF example_Map_inv, of 4]
        example_Map_inv example_Load_4 example_Load_5
  by auto

text \<open>
  C6. After \<^verbatim>\<open>Clear()\<close> every key, so every key present before, is not found by
  \<^verbatim>\<open>Load\<close>, and the Map can be written: \<^verbatim>\<open>Store(k, v)\<close> followed by \<^verbatim>\<open>Load(k)\<close> yields
  \<open>(v, true)\<close>.
\<close>

theorem Clear_then_Load_Store:
  assumes "Map_inv mp"
  shows "(\<forall>k'. Load (Clear mp) k' = Inr (0, False))
       \<and> (\<exists>mp'. Store (Clear mp) k v = Inr mp' \<and> Load mp' k = Inr (v, True))"
proof
  from assms show "\<forall>k'. Load (Clear mp) k' = Inr (0, False)"
    by (simp add: Load_entry entry_Clear)
next
  from assms have inv: "Map_inv (Clear mp)" by simp
  from Store_entry [OF inv, of k v] obtain mp'
    where "Store (Clear mp) k v = Inr mp'" and "Map_inv mp'"
      and "entry mp' = (entry (Clear mp))(k \<mapsto> v)"
    by blast
  then show "\<exists>mp'. Store (Clear mp) k v = Inr mp' \<and> Load mp' k = Inr (v, True)"
    by (simp add: Load_entry)
qed

theorem Clear_then_Load_Store_witness:
  "Map_inv example_Map
   \<and> Load example_Map 5 = Inr (7, True) \<and> Load (Clear example_Map) 5 = Inr (0, False)
   \<and> Load example_Map 0 = Inr (10, True) \<and> Load (Clear example_Map) 0 = Inr (0, False)
   \<and> (\<exists>mp'. Store (Clear example_Map) 5 9 = Inr mp' \<and> Load mp' 5 = Inr (9, True))"
  using Clear_then_Load_Store [OF example_Map_inv, of 5 9]
        example_Map_inv example_Load_5 example_Load_0
  by simp

text \<open>
  C7. In one pass of \<^verbatim>\<open>Iter\<close>, an answer \<^verbatim>\<open>false\<close> of the callback ends the whole pass and
  not only the bucket at hand: when the callback answers \<^verbatim>\<open>false\<close> to pair number \<open>n + 1\<close>,
  the pass has called it for \<open>n + 1\<close> pairs in all, over all buckets. This holds for every
  order of the buckets, every order within a table and every callback, also one that
  changes the Map.
\<close>

theorem Iter_false_stops_pass:
  assumes "Iter mp shuffle enum yield w = (cs, r)"
    and "n < length cs" and "\<not> snd (snd (cs ! n))"
  shows "length cs = Suc n"
proof -
  from assms(1) have "Iter_order enum yield (shuffle [0..<length (buckets mp)]) w = (cs, r)"
    by (simp add: Iter_def)
  then have "\<forall>c \<in> set (butlast cs). snd (snd c)" by (rule Iter_order_answers)
  then show ?thesis using assms(2,3) by (rule false_answer_is_last)
qed

theorem Iter_false_stops_pass_witness:
  "Iter example_Map (\<lambda>order. order) example_enum example_yield (example_Map, 0) =
     ([(0, 10, False)],
      Inr (\<lparr>buckets = [\<lparr>m = Some Map.empty\<rparr>, \<lparr>m = None\<rparr>, \<lparr>m = Some [5 \<mapsto> 7]\<rparr>],
             hash = (\<lambda>k. of_nat k)\<rparr>, 1))
   \<and> (0::nat) < length [(0::nat, 10::int, False)]
   \<and> \<not> snd (snd ([(0::nat, 10::int, False)] ! 0))
   \<and> length [(0::nat, 10::int, False)] = Suc 0
   \<and> Load example_Map 5 = Inr (7, True)"
proof -
  have run: "Iter example_Map (\<lambda>order. order) example_enum example_yield (example_Map, 0) =
     ([(0, 10, False)],
      Inr (\<lparr>buckets = [\<lparr>m = Some Map.empty\<rparr>, \<lparr>m = None\<rparr>, \<lparr>m = Some [5 \<mapsto> 7]\<rparr>],
             hash = (\<lambda>k. of_nat k)\<rparr>, 1))"
    by (simp add: Iter_def example_Map_def example_enum_def example_yield_def
                  Delete_def get_def setbkt_def mapdelete_def)
  have n: "(0::nat) < length [(0::nat, 10::int, False)]" by simp
  have a: "\<not> snd (snd ([(0::nat, 10::int, False)] ! 0))" by simp
  from Iter_false_stops_pass [OF run n a] run n a example_Load_5 show ?thesis by simp
qed

text \<open>
  C8. \<^verbatim>\<open>Make\<close> gives as many buckets as its first argument says when that is positive, and
  31 when there is no argument or the first is zero or negative; the count asked for is
  then replaced by the default, \<^verbatim>\<open>Make\<close> does not fail. The Map always has at least one
  bucket.
\<close>

theorem Make_bucket_count:
  "length (buckets (Make h bs :: ('k, 'v) Map)) =
     (if bs \<noteq> [] \<and> 0 < sint (hd bs) then nat (sint (hd bs)) else 31)
   \<and> 1 \<le> length (buckets (Make h bs :: ('k, 'v) Map))
   \<and> length (buckets (Make h [] :: ('k, 'v) Map)) = 31"
  by (auto simp: Make_buckets)

theorem Make_bucket_count_witness:
  "length (buckets (Make (\<lambda>k. of_nat k) [5] :: (nat, int) Map)) = 5
   \<and> length (buckets (Make (\<lambda>k. of_nat k) [] :: (nat, int) Map)) = 31
   \<and> length (buckets (Make (\<lambda>k. of_nat k) [0] :: (nat, int) Map)) = 31
   \<and> length (buckets (Make (\<lambda>k. of_nat k) [- 4, 7] :: (nat, int) Map)) = 31"
  using Make_bucket_count [where 'k = nat and 'v = int, of "\<lambda>k. of_nat k" "[5]"]
        Make_bucket_count [where 'k = nat and 'v = int, of "\<lambda>k. of_nat k" "[0]"]
        Make_bucket_count [where 'k = nat and 'v = int, of "\<lambda>k. of_nat k" "[- 4, 7]"]
  by simp

text \<open>
  C9. For every sequence of single-key calls, \<^verbatim>\<open>Clear\<close> and complete passes of \<^verbatim>\<open>Iter\<close>,
  the Map made with one bucket and the Map made with any other argument, so with any
  number of buckets above one, return: neither panics, and call by call they give back the
  same values and flags (and show the same pairs in a pass), and leave the caller's state
  the same. With one bucket the hash function is the constant 0 whatever the hash
  provider gives, and every key is routed to bucket 0.
\<close>

theorem one_bucket_same_outcomes:
  fixes calls :: "('k, 'v::zero, 's) call list"
  assumes "\<forall>c \<in> set calls. draws_ok c"
  shows "(\<exists>outs mp1 mpn s'.
            run calls (Make h [1], s) = Inr (outs, mp1, s')
          \<and> run calls (Make h bs, s) = Inr (outs, mpn, s'))
       \<and> hash (Make h [1] :: ('k, 'v::zero) Map) = (\<lambda>k. 0)
       \<and> (\<forall>k. get (Make h [1] :: ('k, 'v) Map) k = Inr 0)"
proof (intro conjI)
  let ?one = "Make h [1] :: ('k, 'v) Map" and ?many = "Make h bs :: ('k, 'v) Map"
  from run_simulates [OF Map_inv_Make routed_Make assms, of h "[1]" s] obtain outs mp1 s'
    where r1: "run calls (?one, s) = Inr (outs, mp1, s')"
      and s1: "spec_run calls (Map.empty, s) = (outs, entry mp1, s')"
    by (auto simp: entry_Make)
  from run_simulates [OF Map_inv_Make routed_Make assms, of h bs s] obtain outs' mpn s''
    where rn: "run calls (?many, s) = Inr (outs', mpn, s'')"
      and sn: "spec_run calls (Map.empty, s) = (outs', entry mpn, s'')"
    by (auto simp: entry_Make)
  from s1 sn have "outs' = outs" and "s'' = s'" by simp_all
  with r1 rn show "\<exists>outs mp1 mpn s'.
            run calls (?one, s) = Inr (outs, mp1, s')
          \<and> run calls (?many, s) = Inr (outs, mpn, s')"
    by blast
next
  show "hash (Make h [1] :: ('k, 'v) Map) = (\<lambda>k. 0)" by (rule hash_Make_1)
next
  show "\<forall>k. get (Make h [1] :: ('k, 'v) Map) k = Inr 0" by (simp add: get_Make_1)
qed

theorem one_bucket_same_outcomes_witness:
  "list_all draws_ok (CallStore 2 3 # example_pass # example_calls)
   \<and> (\<exists>outs mp1 mpn s'.
          run (CallStore 2 3 # example_pass # example_calls) (Make (\<lambda>k. of_nat k) [1], 0)
            = Inr (outs, mp1, s')
        \<and> run (CallStore 2 3 # example_pass # example_calls) (Make (\<lambda>k. of_nat k) [3], 0)
            = Inr (outs, mpn, s'))
   \<and> (\<exists>mp1. run example_calls (Make (\<lambda>k. of_nat k) [1], 0) = Inr (example_outcomes, mp1, 1))
   \<and> (\<exists>mpn. run example_calls (Make (\<lambda>k. of_nat k) [3], 0) = Inr (example_outcomes, mpn, 1))
   \<and> hash (Make (\<lambda>k. of_nat k) [1] :: (nat, int) Map) = (\<lambda>k. 0)
   \<and> get (Make (\<lambda>k. of_nat k) [1] :: (nat, int) Map) 5 = Inr 0"
proof -
  have ok: "\<forall>c \<in> set (CallStore 2 3 # example_pass # example_calls). draws_ok c"
    by (simp add: example_pass_def example_calls_def)
  have one: "\<exists>mp1. run example_calls (Make (\<lambda>k. of_nat k) [1], 0)
               = Inr (example_outcomes, mp1, 1)"
    by (simp add: example_calls_def example_outcomes_def Make_def Load_def Store_def
          Delete_def LoadAndDelete_def LoadOrStore_def LoadOrStoreFunc_def Swap_def
          Clear_eq get_def setbkt_def mapaccess_def mapassign_def mapinit_def mapdelete_def
          mapclear_def)
  have three: "\<exists>mpn. run example_calls (Make (\<lambda>k. of_nat k) [3], 0)
               = Inr (example_outcomes, mpn, 1)"
    by (simp add: example_calls_def example_outcomes_def Make_def Load_def Store_def
          Delete_def LoadAndDelete_def LoadOrStore_def LoadOrStoreFunc_def Swap_def
          Clear_eq get_def setbkt_def mapaccess_def mapassign_def mapinit_def mapdelete_def
          mapclear_def numeral_3_eq_3)
  from one_bucket_same_outcomes [OF ok, of "\<lambda>k. of_nat k" 0 "[3]"] ok one three
  show ?thesis by (simp add: list_all_iff)
qed

text \<open>
  C10. A single-key operation on \<open>k\<close> (\<^verbatim>\<open>Store\<close>, \<^verbatim>\<open>Delete\<close>, \<^verbatim>\<open>LoadAndDelete\<close>,
  \<^verbatim>\<open>LoadOrStore\<close>, \<^verbatim>\<open>LoadOrStoreFunc\<close>, \<^verbatim>\<open>Swap\<close>) returns, and \<^verbatim>\<open>Load(k')\<close> for any other
  key \<open>k'\<close> returns after it what it returned before.
\<close>

theorem other_keys_unchanged:
  assumes "Map_inv mp" and "k' \<noteq> k"
  shows "(\<exists>mp'. Store mp k v = Inr mp' \<and> Load mp' k' = Load mp k')
       \<and> (\<exists>mp'. Delete mp k = Inr mp' \<and> Load mp' k' = Load mp k')
       \<and> (\<exists>r mp'. LoadAndDelete mp k = Inr (r, mp') \<and> Load mp' k' = Load mp k')
       \<and> (\<exists>r mp'. LoadOrStore mp k v = Inr (r, mp') \<and> Load mp' k' = Load mp k')
       \<and> (\<exists>r mp' s'. LoadOrStoreFunc mp k newValue s = Inr (r, mp', s')
              \<and> Load mp' k' = Load mp k')
       \<and> (\<exists>r mp'. Swap mp k v = Inr (r, mp') \<and> Load mp' k' = Load mp k')"
proof (intro conjI)
  from Store_entry [OF assms(1), of k v] obtain mp'
    where "Store mp k v = Inr mp'" and "Map_inv mp'" and "entry mp' = (entry mp)(k \<mapsto> v)"
    by blast
  then show "\<exists>mp'. Store mp k v = Inr mp' \<and> Load mp' k' = Load mp k'"
    using assms by (simp add: Load_entry)
next
  from Delete_entry [OF assms(1), of k] obtain mp'
    where "Delete mp k = Inr mp'" and "Map_inv mp'" and "entry mp' = (entry mp)(k := None)"
    by (elim exE conjE)
  then show "\<exists>mp'. Delete mp k = Inr mp' \<and> Load mp' k' = Load mp k'"
    using assms by (simp add: Load_entry)
next
  from LoadAndDelete_entry [OF assms(1), of k] obtain mp'
    where "LoadAndDelete mp k = Inr (found (entry mp k), mp')" and "Map_inv mp'"
      and "entry mp' = (entry mp)(k := None)"
    by blast
  then show "\<exists>r mp'. LoadAndDelete mp k = Inr (r, mp') \<and> Load mp' k' = Load mp k'"
    using assms by (simp add: Load_entry)
next
  from LoadOrStore_entry [OF assms(1), of k v] obtain r mp'
    where "LoadOrStore mp k v = Inr (r, mp')" and "Map_inv mp'"
      and "entry mp' = (case entry mp k of None \<Rightarrow> (entry mp)(k \<mapsto> v) | Some x \<Rightarrow> entry mp)"
    by (elim exE conjE)
  then show "\<exists>r mp'. LoadOrStore mp k v = Inr (r, mp') \<and> Load mp' k' = Load mp k'"
    using assms by (cases "entry mp k") (simp_all add: Load_entry)
next
  from LoadOrStoreFunc_entry [OF assms(1), of k newValue s] obtain r mp' s'
    where "LoadOrStoreFunc mp k newValue s = Inr (r, mp', s')" and "Map_inv mp'"
      and "entry mp' = (case entry mp k of None \<Rightarrow> (entry mp)(k \<mapsto> fst (newValue s))
                                            | Some x \<Rightarrow> entry mp)"
    by (elim exE conjE)
  then show "\<exists>r mp' s'. LoadOrStoreFunc mp k newValue s = Inr (r, mp', s')
              \<and> Load mp' k' = Load mp k'"
    using assms by (cases "entry mp k") (simp_all add: Load_entry)
next
  from Swap_entry [OF assms(1), of k v] obtain mp'
    where "Swap mp k v = Inr (found (entry mp k), mp')" and "Map_inv mp'"
      and "entry mp' = (entry mp)(k \<mapsto> v)"
    by blast
  then show "\<exists>r mp'. Swap mp k v = Inr (r, mp') \<and> Load mp' k' = Load mp k'"
    using assms by (simp add: Load_entry)
qed

theorem other_keys_unchanged_witness:
  "Map_inv example_Map \<and> (5::nat) \<noteq> 2 \<and> Load example_Map 5 = Inr (7, True)
   \<and> (\<exists>mp'. Store example_Map 2 9 = Inr mp' \<and> Load mp' 5 = Inr (7, True))
   \<and> (\<exists>mp'. Delete example_Map 2 = Inr mp' \<and> Load mp' 5 = Inr (7, True))
   \<and> (\<exists>r mp'. LoadAndDelete example_Map 2 = Inr (r, mp') \<and> Load mp' 5 = Inr (7, True))
   \<and> (\<exists>r mp'. LoadOrStore example_Map 2 9 = Inr (r, mp') \<and> Load mp' 5 = Inr (7, True))
   \<and> (\<exists>r mp' s'. LoadOrStoreFunc example_Map 2 (\<lambda>s::nat. (9, s)) 0 = Inr (r, mp', s')
          \<and> Load mp' 5 = Inr (7, True))
   \<and> (\<exists>r mp'. Swap example_Map 2 9 = Inr (r, mp') \<and> Load mp' 5 = Inr (7, True))"
proof -
  have ne: "(5::nat) \<noteq> 2" by simp
  show ?thesis
    using other_keys_unchanged [OF example_Map_inv ne, of 9 "\<lambda>s::nat. (9, s)" 0]
          example_Map_inv example_Load_5
    by simp
qed

end
